theory Spec2Isabelle
  imports Main "HOL-Library.Word"
begin

section \<open>JavaScript values used by the content script\<close>

text \<open>
  A JavaScript string is a sequence of UTF-16 code units; \<open>substring\<close>, \<open>length\<close>,
  \<open>includes_str\<close> and \<open>endsWith\<close> all count code units.  ASCII literals of the source
  are embedded with \<open>js\<close>.
\<close>

type_synonym jsstring = "16 word list"

definition js :: "string \<Rightarrow> jsstring" where
  "js s = map of_char s"

text \<open>The robot emoji U+1F916 of the signature is the surrogate pair D83E DD16.\<close>

definition robot :: jsstring where
  "robot = [0xD83E, 0xDD16]"

text \<open>\<open>String.prototype.trim\<close>: the WhiteSpace and LineTerminator code units.\<close>

definition isWhiteSpace :: "16 word \<Rightarrow> bool" where
  "isWhiteSpace c \<longleftrightarrow>
     c \<in> {0x09, 0x0A, 0x0B, 0x0C, 0x0D, 0x20, 0xA0, 0x1680, 0x2028, 0x2029,
          0x202F, 0x205F, 0x3000, 0xFEFF}
     \<or> (0x2000 \<le> c \<and> c \<le> 0x200A)"

definition trim :: "jsstring \<Rightarrow> jsstring" where
  "trim s = rev (dropWhile isWhiteSpace (rev (dropWhile isWhiteSpace s)))"

definition substring :: "jsstring \<Rightarrow> nat \<Rightarrow> nat \<Rightarrow> jsstring" where
  "substring s a b = take (max a b - min a b) (drop (min a b) s)"

definition startsWith :: "jsstring \<Rightarrow> jsstring \<Rightarrow> bool" where
  "startsWith s m \<longleftrightarrow> take (length m) s = m"

definition endsWith :: "jsstring \<Rightarrow> jsstring \<Rightarrow> bool" where
  "endsWith s m \<longleftrightarrow> length m \<le> length s \<and> drop (length s - length m) s = m"

fun includes_str :: "jsstring \<Rightarrow> jsstring \<Rightarrow> bool" where
  "includes_str [] m = (m = [])"
| "includes_str (c # s) m = (startsWith (c # s) m \<or> includes_str s m)"

text \<open>Number-to-string conversion of an integer (template literals \<open>${n}\<close>).\<close>

fun digits :: "nat \<Rightarrow> jsstring" where
  "digits n = (if n < 10 then [of_nat (48 + n)]
               else digits (n div 10) @ [of_nat (48 + n mod 10)])"

declare digits.simps [simp del]

definition numberToString :: "int \<Rightarrow> jsstring" where
  "numberToString n = (if n < 0 then js ''-'' @ digits (nat (- n)) else digits (nat n))"

text \<open>
  A \<open>Date\<close> object holds either an integral number of milliseconds since the epoch or
  \<open>NaN\<close> (an ``Invalid Date'').  \<open>new Date(s)\<close> on a string is the engine's parser; it is
  a parameter \<open>parse\<close> of the model, with \<open>None\<close> for a string that does not parse.
\<close>

datatype jsdate = Date int | InvalidDate

definition newDate :: "(jsstring \<Rightarrow> int option) \<Rightarrow> jsstring \<Rightarrow> jsdate" where
  "newDate parse s = (case parse s of None \<Rightarrow> InvalidDate | Some t \<Rightarrow> Date t)"

text \<open>\<open>getTime\<close> and numeric conversion of a date: \<open>None\<close> stands for \<open>NaN\<close>.\<close>

fun getTime :: "jsdate \<Rightarrow> int option" where
  "getTime (Date t) = Some t"
| "getTime InvalidDate = None"

text \<open>Subtraction of two dates, \<open>x - y\<close>; \<open>NaN\<close> is contagious.\<close>

fun date_minus :: "jsdate \<Rightarrow> jsdate \<Rightarrow> int option" where
  "date_minus (Date x) (Date y) = Some (x - y)"
| "date_minus _ _ = None"

text \<open>
  \<open>toLocaleDateString('en-US', {month: 'short', day: 'numeric'})\<close> depends on the time
  zone of the browser; for a valid date it is the parameter \<open>shortDate\<close>, and for an
  invalid date the built-in returns the text \<open>Invalid Date\<close>.
\<close>

fun toLocaleDateString :: "(int \<Rightarrow> jsstring) \<Rightarrow> jsdate \<Rightarrow> jsstring" where
  "toLocaleDateString shortDate (Date t) = shortDate t"
| "toLocaleDateString shortDate InvalidDate = js ''Invalid Date''"


section \<open>The page: timeline items\<close>

text \<open>
  A \<open>.js-timeline-item\<close> node is represented by the results of the queries that
  \<open>createSimplifiedView\<close> runs on it.
\<close>

record time_element =
  datetime :: "jsstring option"       \<comment> \<open>\<open>getAttribute('datetime')\<close>\<close>
  timeTextContent :: jsstring         \<comment> \<open>\<open>textContent\<close>\<close>

record timeline_item =
  commitBadge :: bool                 \<comment> \<open>a commit, push or branch octicon is found\<close>
  classCommitsListItem :: bool        \<comment> \<open>the item has class \<open>js-commits-list-item\<close>\<close>
  innerCommitsListItem :: bool        \<comment> \<open>a \<open>.commits-list-item\<close> descendant is found\<close>
  authorSel1 :: "jsstring option"     \<comment> \<open>text of \<open>.author\<close>\<close>
  authorSel2 :: "jsstring option"     \<comment> \<open>text of \<open>a[data-hovercard-type="user"]\<close>\<close>
  authorSel3 :: "jsstring option"     \<comment> \<open>text of \<open>.timeline-comment-header .author\<close>\<close>
  authorSel4 :: "jsstring option"     \<comment> \<open>text of \<open>[data-hovercard-type="user"]\<close>\<close>
  timeEl :: "time_element option"     \<comment> \<open>first \<open>relative-time, time-ago\<close>\<close>
  bodyEl :: "jsstring option"         \<comment> \<open>text of the first \<open>.comment-body, .markdown-body\<close>\<close>
  commentBodyHTML :: "jsstring option" \<comment> \<open>\<open>innerHTML\<close> of the first \<open>.comment-body\<close>\<close>
  reviewComment :: bool               \<comment> \<open>a \<open>.review-comment\<close> descendant is found\<close>

definition isCommit :: "timeline_item \<Rightarrow> bool" where
  "isCommit item \<longleftrightarrow> commitBadge item \<or> classCommitsListItem item \<or> innerCommitsListItem item"

text \<open>The fallback chain of author locators; the first element found wins.\<close>

definition authorEl :: "timeline_item \<Rightarrow> jsstring option" where
  "authorEl item =
     (case authorSel1 item of Some a \<Rightarrow> Some a | None \<Rightarrow>
      (case authorSel2 item of Some a \<Rightarrow> Some a | None \<Rightarrow>
       (case authorSel3 item of Some a \<Rightarrow> Some a | None \<Rightarrow> authorSel4 item)))"

definition author :: "timeline_item \<Rightarrow> jsstring option" where
  "author item = map_option trim (authorEl item)"

text \<open>
  \<open>timestamp?.getAttribute('datetime') || timestamp?.textContent || ''\<close>: an empty
  string is falsy, so an empty attribute falls through to the text.
\<close>

definition timeText :: "timeline_item \<Rightarrow> jsstring" where
  "timeText item =
     (case timeEl item of
        None \<Rightarrow> []
      | Some t \<Rightarrow> (case datetime t of
                    Some d \<Rightarrow> (if d \<noteq> [] then d else timeTextContent t)
                  | None \<Rightarrow> timeTextContent t))"

definition hasTextContent :: "timeline_item \<Rightarrow> bool" where
  "hasTextContent item \<longleftrightarrow> (case bodyEl item of None \<Rightarrow> False | Some b \<Rightarrow> length (trim b) > 0)"

text \<open>The trimmed body text; only used where \<open>commentBody\<close> is present.\<close>

definition bodyText :: "timeline_item \<Rightarrow> jsstring" where
  "bodyText item = (case bodyEl item of None \<Rightarrow> [] | Some b \<Rightarrow> trim b)"

text \<open>A template literal renders an absent value as the text \<open>undefined\<close>.\<close>

definition interpolate :: "jsstring option \<Rightarrow> jsstring" where
  "interpolate v = (case v of None \<Rightarrow> js ''undefined'' | Some s \<Rightarrow> s)"

definition contentKey :: "timeline_item \<Rightarrow> jsstring" where
  "contentKey item =
     interpolate (author item) @ js ''-'' @ timeText item @ js ''-'' @ substring (bodyText item) 0 100"

definition isBotComment :: "timeline_item \<Rightarrow> bool" where
  "isBotComment item \<longleftrightarrow>
     (case author item of None \<Rightarrow> False
      | Some a \<Rightarrow> includes_str a (js ''[bot]'') \<or> includes_str a (js ''bot''))"

definition isFromAgenthelper :: "timeline_item \<Rightarrow> bool" where
  "isFromAgenthelper item \<longleftrightarrow>
     endsWith (bodyText item) (js ''agenthelper'')
     \<or> includes_str (bodyText item) (robot @ js '' agenthelper'')
     \<or> (case commentBodyHTML item of None \<Rightarrow> False | Some h \<Rightarrow> includes_str h (js ''agenthelper''))"

definition displayAuthor :: "timeline_item \<Rightarrow> jsstring" where
  "displayAuthor item =
     (if isFromAgenthelper item then js ''agenthelper''
      else (case author item of None \<Rightarrow> js ''Unknown''
            | Some a \<Rightarrow> if a = [] then js ''Unknown'' else a))"


section \<open>First pass: classification and deduplication\<close>

text \<open>
  The objects pushed to \<open>orderedItems\<close>.  \<open>element\<close> is the deep clone of the node,
  that is the item itself.
\<close>

record comment =
  element :: timeline_item
  authorName :: jsstring              \<comment> \<open>field \<open>author\<close>\<close>
  timestamp :: jsstring
  date :: jsdate
  index :: nat
  isBot :: bool
  isReview :: bool
  followingCommits :: "timeline_item list"

datatype ordered_item =
    CommitItem timeline_item nat      \<comment> \<open>\<open>{type: 'commit', element, index}\<close>\<close>
  | CommentItem comment               \<comment> \<open>\<open>{type: 'comment', ...}\<close>\<close>

definition mkComment :: "(jsstring \<Rightarrow> int option) \<Rightarrow> timeline_item \<Rightarrow> nat \<Rightarrow> comment" where
  "mkComment parse item i =
     \<lparr> element = item,
       authorName = displayAuthor item,
       timestamp = timeText item,
       date = (case timeEl item of None \<Rightarrow> Date 0 | Some _ \<Rightarrow> newDate parse (timeText item)),
       index = i,
       isBot = (isBotComment item \<or> isFromAgenthelper item),
       isReview = reviewComment item,
       followingCommits = [] \<rparr>"

text \<open>
  The \<open>forEach\<close> over the timeline items, from index \<open>i\<close> on, with the set
  \<open>seenCommentBodies\<close> threaded through; the result is what is pushed to
  \<open>orderedItems\<close>.
\<close>

fun collect :: "(jsstring \<Rightarrow> int option) \<Rightarrow> nat \<Rightarrow> jsstring set \<Rightarrow> timeline_item list
                 \<Rightarrow> ordered_item list" where
  "collect parse i seen [] = []"
| "collect parse i seen (item # items) =
     (if isCommit item then
        CommitItem item i # collect parse (Suc i) seen items
      else if hasTextContent item then
        (if contentKey item \<notin> seen then
           CommentItem (mkComment parse item i)
             # collect parse (Suc i) (insert (contentKey item) seen) items
         else collect parse (Suc i) seen items)
      else collect parse (Suc i) seen items)"

definition orderedItems :: "(jsstring \<Rightarrow> int option) \<Rightarrow> timeline_item list \<Rightarrow> ordered_item list" where
  "orderedItems parse timelineItems = collect parse 0 {} timelineItems"


section \<open>Second pass: commits are grouped with the preceding comment\<close>

text \<open>
  \<open>lastComment\<close> is a reference to an object that is also held by the array
  \<open>comments\<close>; it is modelled as the position of that object in the array, which is
  always the last one.
\<close>

fun groupStep :: "comment list \<times> nat option \<Rightarrow> ordered_item \<Rightarrow> comment list \<times> nat option" where
  "groupStep (comments, lastComment) (CommentItem c) =
     (comments @ [c], Some (length comments))"
| "groupStep (comments, Some l) (CommitItem e i) =
     (comments[l := (comments ! l)\<lparr>followingCommits := followingCommits (comments ! l) @ [e]\<rparr>],
      Some l)"
| "groupStep (comments, None) (CommitItem e i) = (comments, None)"

definition groupCommits :: "ordered_item list \<Rightarrow> comment list" where
  "groupCommits items = fst (fold (\<lambda>item st. groupStep st item) items ([], None))"


section \<open>Sorting, newest first\<close>

text \<open>
  The comparator \<open>(a, b) => b.date - a.date\<close>; \<open>Array.prototype.sort\<close> reads a
  \<open>NaN\<close> result as \<open>0\<close>.
\<close>

definition sortCompare :: "comment \<Rightarrow> comment \<Rightarrow> int" where
  "sortCompare a b = (case date_minus (date b) (date a) of None \<Rightarrow> 0 | Some v \<Rightarrow> v)"

text \<open>
  \<open>Array.prototype.sort\<close> is a stable sort.  It is modelled as a stable insertion
  sort driven by the comparator; every stable sort returns the same array when the
  comparator is a consistent ordering, which it is when no date is invalid.  With an
  invalid date the comparator is no ordering and the language leaves the result to the
  engine.  On an array whose adjacent comparisons all answer \<open>0\<close> the insertion sort
  returns the array as it is; so does the sort of V8, which finds a single run that is
  not descending.  On other arrays with an invalid date the two may order the comments
  differently; the set of comments is the same, and only the two runs on sample pages
  with an unparsable timestamp below read the order in that case.
\<close>

fun insertSorted :: "comment \<Rightarrow> comment list \<Rightarrow> comment list" where
  "insertSorted x [] = [x]"
| "insertSorted x (y # ys) =
     (if sortCompare x y \<le> 0 then x # y # ys else y # insertSorted x ys)"

definition sortComments :: "comment list \<Rightarrow> comment list" where
  "sortComments cs = foldr insertSorted cs []"

definition sortedComments :: "(jsstring \<Rightarrow> int option) \<Rightarrow> timeline_item list \<Rightarrow> comment list" where
  "sortedComments parse timelineItems = sortComments (groupCommits (orderedItems parse timelineItems))"


section \<open>Relative times\<close>

text \<open>
  \<open>formatTimeAgo\<close>; \<open>now\<close> is the reading of the clock (\<open>new Date()\<close>), and the
  argument is \<open>None\<close> for a missing date object.
\<close>

definition formatTimeAgo :: "(int \<Rightarrow> jsstring) \<Rightarrow> int \<Rightarrow> jsdate option \<Rightarrow> jsstring" where
  "formatTimeAgo shortDate now d =
     (case d of
        None \<Rightarrow> []
      | Some dt \<Rightarrow>
          if getTime dt = Some 0 then []
          else (case date_minus (Date now) dt of
                  None \<Rightarrow> toLocaleDateString shortDate dt
                | Some diffMs \<Rightarrow>
                    let diffMins = diffMs div 60000;
                        diffHours = diffMs div 3600000;
                        diffDays = diffMs div 86400000
                    in if diffMins < 1 then js ''just now''
                       else if diffMins < 60 then numberToString diffMins @ js ''m ago''
                       else if diffHours < 24 then numberToString diffHours @ js ''h ago''
                       else if diffDays < 7 then numberToString diffDays @ js ''d ago''
                       else toLocaleDateString shortDate dt))"


section \<open>The tabbed view\<close>

text \<open>The nodes that \<open>createSimplifiedView\<close> builds for every comment.\<close>

record tab_button =
  btnActive :: bool                   \<comment> \<open>class \<open>active\<close>\<close>
  btnTabIndex :: nat                  \<comment> \<open>\<open>dataset.tabIndex\<close>\<close>
  tabAuthor :: jsstring               \<comment> \<open>text of the \<open>tab-author\<close> span\<close>
  tabIsBot :: bool                    \<comment> \<open>class \<open>is-bot\<close> of that span\<close>
  tabTime :: jsstring                 \<comment> \<open>text of the \<open>tab-time\<close> span\<close>

record tab_panel =
  panelActive :: bool
  panelTabIndex :: nat
  panelComment :: timeline_item
  commitsSection :: "(jsstring \<times> timeline_item list) option"
                                      \<comment> \<open>header text and the commit nodes below it\<close>

datatype content_node =
    TabPanel tab_panel
  | NoComments jsstring               \<comment> \<open>the \<open>pr-simplifier-no-comments\<close> node and its text\<close>

record container =
  toggleBtn :: jsstring               \<comment> \<open>label of the toggle button\<close>
  tabsDisplay :: jsstring             \<comment> \<open>\<open>style.display\<close> of \<open>.pr-simplifier-tabs\<close>\<close>
  tabNav :: "tab_button list"
  tabContent :: "content_node list"

definition commitsHeader :: "nat \<Rightarrow> jsstring" where
  "commitsHeader n =
     numberToString (int n) @ js '' commit'' @ (if n > 1 then js ''s'' else [])
       @ js '' after this comment''"

definition tabBtn :: "(int \<Rightarrow> jsstring) \<Rightarrow> int \<Rightarrow> nat \<Rightarrow> comment \<Rightarrow> tab_button" where
  "tabBtn shortDate now idx c =
     \<lparr> btnActive = (idx = 0),
       btnTabIndex = idx,
       tabAuthor = authorName c,
       tabIsBot = isBot c,
       tabTime = formatTimeAgo shortDate now (Some (date c)) \<rparr>"

definition tabPanel :: "nat \<Rightarrow> comment \<Rightarrow> tab_panel" where
  "tabPanel idx c =
     \<lparr> panelActive = (idx = 0),
       panelTabIndex = idx,
       panelComment = element c,
       commitsSection =
         (if length (followingCommits c) > 0
          then Some (commitsHeader (length (followingCommits c)), followingCommits c)
          else None) \<rparr>"

text \<open>
  The \<open>forEach\<close> over the sorted comments, from index \<open>idx\<close> on; \<open>clock idx\<close> is
  what \<open>new Date()\<close> reads when the tab of that index is built.  The result is the
  children of \<open>tabNav\<close> and of \<open>tabContent\<close>.
\<close>

fun buildTabs :: "(int \<Rightarrow> jsstring) \<Rightarrow> (nat \<Rightarrow> int) \<Rightarrow> nat \<Rightarrow> comment list
                   \<Rightarrow> tab_button list \<times> content_node list" where
  "buildTabs shortDate clock idx [] = ([], [])"
| "buildTabs shortDate clock idx (c # cs) =
     (case buildTabs shortDate clock (Suc idx) cs of
        (nav, content) \<Rightarrow>
          (tabBtn shortDate (clock idx) idx c # nav, TabPanel (tabPanel idx c) # content))"


section \<open>The page and the view toggle\<close>

record discussion =
  timeline :: "timeline_item list"    \<comment> \<open>the \<open>.js-timeline-item\<close> nodes, in document order\<close>
  discussionDisplay :: jsstring       \<comment> \<open>\<open>style.display\<close>\<close>
  prSimplifierHidden :: "jsstring option"

record page =
  discussionEl :: "discussion option" \<comment> \<open>\<open>.js-discussion\<close>\<close>
  containerEl :: "container option"   \<comment> \<open>\<open>.pr-simplifier-container\<close>\<close>
  isSimplified :: bool
  originalState :: "jsstring option"  \<comment> \<open>\<open>originalState.discussionDisplay\<close>\<close>

definition createSimplifiedView ::
    "(jsstring \<Rightarrow> int option) \<Rightarrow> (int \<Rightarrow> jsstring) \<Rightarrow> (nat \<Rightarrow> int) \<Rightarrow> page \<Rightarrow> discussion \<Rightarrow> page" where
  "createSimplifiedView parse shortDate clock st d =
     (let comments = sortedComments parse (timeline d);
          built = buildTabs shortDate clock 0 comments;
          content = snd built
                    @ (if length comments = 0 then [NoComments (js ''No comments yet'')] else []);
          c = \<lparr> toggleBtn = js ''Show Original View'', tabsDisplay = [],
                tabNav = fst built, tabContent = content \<rparr>
      in st\<lparr> originalState := Some (discussionDisplay d),
             discussionEl := Some (d\<lparr> discussionDisplay := js ''none'',
                                     prSimplifierHidden := Some (js ''true'') \<rparr>),
             containerEl := Some c,
             isSimplified := True \<rparr>)"

text \<open>
  \<open>simplifyPR\<close>: nothing is done off a pull-request page, nor when a container is
  already there; without a discussion region the page is left as it is and the call
  is scheduled again.
\<close>

definition simplifyPR ::
    "(jsstring \<Rightarrow> int option) \<Rightarrow> (int \<Rightarrow> jsstring) \<Rightarrow> (nat \<Rightarrow> int) \<Rightarrow> bool \<Rightarrow> page \<Rightarrow> page" where
  "simplifyPR parse shortDate clock onPullPage st =
     (if \<not> onPullPage then st
      else if containerEl st \<noteq> None then st
      else (case discussionEl st of
              None \<Rightarrow> st
            | Some d \<Rightarrow> createSimplifiedView parse shortDate clock st d))"

definition switchTab :: "nat \<Rightarrow> page \<Rightarrow> page" where
  "switchTab i st =
     (case containerEl st of
        None \<Rightarrow> st
      | Some c \<Rightarrow>
          st\<lparr> containerEl := Some (c
            \<lparr> tabNav := map (\<lambda>b. b\<lparr> btnActive := (btnTabIndex b = i) \<rparr>) (tabNav c),
              tabContent := map (\<lambda>n. case n of
                                        TabPanel p \<Rightarrow> TabPanel (p\<lparr> panelActive := (panelTabIndex p = i) \<rparr>)
                                      | NoComments t \<Rightarrow> NoComments t) (tabContent c) \<rparr>) \<rparr>)"

datatype js_error = TypeError

text \<open>
  \<open>toggleView\<close>.  A property access on \<open>null\<close> throws; the page is returned as the
  statements before the throw left it.
\<close>

definition toggleView :: "page \<Rightarrow> js_error option \<times> page" where
  "toggleView st =
     (case containerEl st of
        None \<Rightarrow> (Some TypeError, st)
      | Some c \<Rightarrow>
          if isSimplified st then
            (let st1 = st\<lparr> containerEl := Some (c\<lparr> tabsDisplay := js ''none'' \<rparr>) \<rparr>
             in case discussionEl st of
                  None \<Rightarrow> (Some TypeError, st1)
                | Some d \<Rightarrow>
                    (None, st1\<lparr> discussionEl := Some (d\<lparr> discussionDisplay := [] \<rparr>),
                                containerEl := Some (c\<lparr> tabsDisplay := js ''none'',
                                                       toggleBtn := js ''Show Simplified View'' \<rparr>),
                                isSimplified := False \<rparr>))
          else
            (let st1 = st\<lparr> containerEl := Some (c\<lparr> tabsDisplay := [] \<rparr>) \<rparr>
             in case discussionEl st of
                  None \<Rightarrow> (Some TypeError, st1)
                | Some d \<Rightarrow>
                    (None, st1\<lparr> discussionEl := Some (d\<lparr> discussionDisplay := js ''none'' \<rparr>),
                                containerEl := Some (c\<lparr> tabsDisplay := [],
                                                       toggleBtn := js ''Show Original View'' \<rparr>),
                                isSimplified := True \<rparr>)))"

text \<open>
  The states of a page on which a reconstruction has run: the state left by
  \<open>simplifyPR\<close> when it built the view, and every state reached from there by
  clicks on the toggle and on the tabs and by the later calls of \<open>simplifyPR\<close> that
  the navigation events schedule.
\<close>

inductive reachable :: "page \<Rightarrow> bool" where
  created: "containerEl st = None \<Longrightarrow> discussionEl st = Some d
            \<Longrightarrow> reachable (simplifyPR parse shortDate clock True st)"
| toggled: "reachable st \<Longrightarrow> reachable (snd (toggleView st))"
| switched: "reachable st \<Longrightarrow> reachable (switchTab i st)"
| rerun: "reachable st \<Longrightarrow> reachable (simplifyPR parse shortDate clock onPullPage st)"

text \<open>What a toggle must not touch: everything but the two display attributes, the label
  of the button and the flag.\<close>

definition untouched :: "page \<Rightarrow> page \<Rightarrow> bool" where
  "untouched s s' \<longleftrightarrow>
     map_option timeline (discussionEl s') = map_option timeline (discussionEl s)
     \<and> map_option prSimplifierHidden (discussionEl s') = map_option prSimplifierHidden (discussionEl s)
     \<and> map_option tabNav (containerEl s') = map_option tabNav (containerEl s)
     \<and> map_option tabContent (containerEl s') = map_option tabContent (containerEl s)
     \<and> originalState s' = originalState s"


section \<open>Notions used in the statements\<close>

text \<open>
  The items that the first pass treats as comments before deduplication: not a commit,
  and with body text.
\<close>

definition candidates :: "timeline_item list \<Rightarrow> timeline_item list" where
  "candidates items = filter (\<lambda>item. \<not> isCommit item \<and> hasTextContent item) items"

text \<open>
  The comment objects and the commit objects of \<open>orderedItems\<close>, and the page
  position and node of each entry.
\<close>

fun commentsOf :: "ordered_item list \<Rightarrow> comment list" where
  "commentsOf [] = []"
| "commentsOf (CommentItem c # xs) = c # commentsOf xs"
| "commentsOf (CommitItem e i # xs) = commentsOf xs"

fun commitsOf :: "ordered_item list \<Rightarrow> (timeline_item \<times> nat) list" where
  "commitsOf [] = []"
| "commitsOf (CommentItem c # xs) = commitsOf xs"
| "commitsOf (CommitItem e i # xs) = (e, i) # commitsOf xs"

fun itemIndex :: "ordered_item \<Rightarrow> nat" where
  "itemIndex (CommitItem e i) = i"
| "itemIndex (CommentItem c) = index c"

fun itemElement :: "ordered_item \<Rightarrow> timeline_item" where
  "itemElement (CommitItem e i) = e"
| "itemElement (CommentItem c) = element c"

text \<open>
  The commit nodes at page positions strictly between \<open>a\<close> and \<open>b\<close>, in page order.
\<close>

definition commitsBetween :: "timeline_item list \<Rightarrow> nat \<Rightarrow> nat \<Rightarrow> timeline_item list" where
  "commitsBetween items a b = map ((!) items) (filter (\<lambda>j. isCommit (items ! j)) [Suc a ..< b])"

text \<open>
  The page position of the first comment of \<open>ts\<close> after position \<open>a\<close>, or \<open>n\<close>
  (the length of the page) when there is none.
\<close>

definition nextAfter :: "comment list \<Rightarrow> nat \<Rightarrow> nat \<Rightarrow> nat" where
  "nextAfter ts n a = fold min (filter (\<lambda>i. a < i) (map index ts)) n"

text \<open>
  The time value of a comment with a valid date.
\<close>

definition timeOf :: "comment \<Rightarrow> int" where
  "timeOf c = (case date c of Date t \<Rightarrow> t | InvalidDate \<Rightarrow> 0)"

definition validDate :: "comment \<Rightarrow> bool" where
  "validDate c \<longleftrightarrow> date c \<noteq> InvalidDate"

text \<open>
  The deduplication key read as a triple, in the words of the specification.
\<close>

definition fingerprint :: "timeline_item \<Rightarrow> jsstring option \<times> jsstring \<times> jsstring" where
  "fingerprint item = (author item, timeText item, substring (bodyText item) 0 100)"

text \<open>
  What holds of the page in both views: the discussion region and the container exist,
  and the two display attributes and the label of the button agree with the flag.
\<close>

definition consistent :: "page \<Rightarrow> bool" where
  "consistent s \<longleftrightarrow>
     (\<exists>d c. discussionEl s = Some d \<and> containerEl s = Some c
        \<and> (if isSimplified s
            then tabsDisplay c = [] \<and> discussionDisplay d = js ''none''
                 \<and> toggleBtn c = js ''Show Original View''
            else tabsDisplay c = js ''none'' \<and> discussionDisplay d = []
                 \<and> toggleBtn c = js ''Show Simplified View''))"

text \<open>The page after a click on the toggle button.\<close>

definition click :: "page \<Rightarrow> page" where
  "click s = snd (toggleView s)"


section \<open>The two passes in one recursion\<close>

text \<open>
  A closed form of the two passes, used in the proofs only: an item survives when it is a
  comment whose key has not been seen; \<open>gap\<close> is the stretch of the page before the next
  survivor; \<open>turnsFrom\<close> builds each surviving comment together with the commits of
  the stretch that follows it.
\<close>

definition survives :: "jsstring set \<Rightarrow> timeline_item \<Rightarrow> bool" where
  "survives seen item \<longleftrightarrow> \<not> isCommit item \<and> hasTextContent item \<and> contentKey item \<notin> seen"

definition gap :: "jsstring set \<Rightarrow> timeline_item list \<Rightarrow> timeline_item list" where
  "gap seen items = takeWhile (\<lambda>item. \<not> survives seen item) items"

fun turnsFrom :: "(jsstring \<Rightarrow> int option) \<Rightarrow> nat \<Rightarrow> jsstring set \<Rightarrow> timeline_item list \<Rightarrow> comment list" where
  "turnsFrom parse i seen [] = []"
| "turnsFrom parse i seen (item # items) =
     (if survives seen item then
        (mkComment parse item i)\<lparr>followingCommits :=
            filter isCommit (gap (insert (contentKey item) seen) items)\<rparr>
          # turnsFrom parse (Suc i) (insert (contentKey item) seen) items
      else turnsFrom parse (Suc i) seen items)"

abbreviation groupFold :: "ordered_item list \<Rightarrow> comment list \<times> nat option \<Rightarrow> comment list \<times> nat option" where
  "groupFold xs st \<equiv> fold (\<lambda>item st. groupStep st item) xs st"


section \<open>Sample environment for concrete runs\<close>

text \<open>
  The short date of a browser whose time zone is UTC (days since the epoch converted to
  a civil month and day), and the parser restricted to two ISO strings.
\<close>

definition monthNames :: "jsstring list" where
  "monthNames = map js [''Jan'', ''Feb'', ''Mar'', ''Apr'', ''May'', ''Jun'',
                        ''Jul'', ''Aug'', ''Sep'', ''Oct'', ''Nov'', ''Dec'']"

definition shortDateUTC :: "int \<Rightarrow> jsstring" where
  "shortDateUTC t =
     (let z = t div 86400000 + 719468;
          doe = z mod 146097;
          yoe = (doe - doe div 1460 + doe div 36524 - doe div 146096) div 365;
          doy = doe - (365 * yoe + yoe div 4 - yoe div 100);
          mp = (5 * doy + 2) div 153;
          d = doy - (153 * mp + 2) div 5 + 1;
          m = (if mp < 10 then mp + 3 else mp - 9)
      in monthNames ! nat (m - 1) @ js '' '' @ numberToString d)"

definition isoTable :: "jsstring \<Rightarrow> int option" where
  "isoTable s =
     (if s = js ''2024-01-01T00:00:00Z'' then Some 1704067200000
      else if s = js ''2024-01-02T00:00:00Z'' then Some 1704153600000
      else None)"

definition fixedClock :: "nat \<Rightarrow> int" where
  "fixedClock idx = 1704157200000"

definition emptyItem :: timeline_item where
  "emptyItem =
     \<lparr> commitBadge = False, classCommitsListItem = False, innerCommitsListItem = False,
       authorSel1 = None, authorSel2 = None, authorSel3 = None, authorSel4 = None,
       timeEl = None, bodyEl = None, commentBodyHTML = None, reviewComment = False \<rparr>"

definition commentNode :: "string \<Rightarrow> string \<Rightarrow> jsstring \<Rightarrow> timeline_item" where
  "commentNode a t b =
     emptyItem\<lparr> authorSel1 := Some (js a),
                timeEl := Some \<lparr> datetime = Some (js t), timeTextContent = [] \<rparr>,
                bodyEl := Some b \<rparr>"

definition commitNode :: timeline_item where
  "commitNode = emptyItem\<lparr> commitBadge := True \<rparr>"

definition freshPage :: "timeline_item list \<Rightarrow> page" where
  "freshPage items =
     \<lparr> discussionEl = Some \<lparr> timeline = items, discussionDisplay = [], prSimplifierHidden = None \<rparr>,
       containerEl = None, isSimplified = False, originalState = None \<rparr>"

text \<open>Sample timeline items and a sample page.\<close>

definition early :: timeline_item where
  "early = commentNode ''al'' ''2024-01-01T00:00:00Z'' (js ''lgtm'')"

definition late :: timeline_item where
  "late = commentNode ''cy'' ''2024-01-02T00:00:00Z'' (js ''ok'')"

definition unparsable :: timeline_item where
  "unparsable = commentNode ''bo'' ''N/A'' (js ''hi'')"

definition samplePage :: "timeline_item list" where
  "samplePage = [commitNode, early, commitNode, commitNode, late, early, commitNode]"

definition zoned :: timeline_item where
  "zoned = commentNode ''al'' ''10:00-08:00'' (js ''ok'')"

definition unzoned :: timeline_item where
  "unzoned = commentNode ''al'' ''10:00'' (js ''08:00-ok'')"




definition signedBy :: "string \<Rightarrow> timeline_item" where
  "signedBy a = commentNode a ''2024-01-01T00:00:00Z'' (robot @ js '' agenthelper'')"

definition signedAnonymous :: timeline_item where
  "signedAnonymous = (signedBy ''undefined'')\<lparr> authorSel1 := None \<rparr>"

text \<open>
  A push event that carries rendered text: the node of \<open>early\<close> with a commit badge, so
  that as a comment it would have the key of \<open>early\<close>; and a page with \<open>early\<close>
  followed by two such nodes.
\<close>

definition pushNote :: timeline_item where
  "pushNote = early\<lparr> commitBadge := True \<rparr>"

definition pushPage :: "timeline_item list" where
  "pushPage = [early, pushNote, pushNote]"


section \<open>Arithmetic and strings\<close>

lemma div_lt_iff:
  fixes d k n :: int
  assumes "0 < k"
  shows "d div k < n \<longleftrightarrow> d < n * k"
proof -
  have eq: "d = k * (d div k) + d mod k" by simp
  have lo: "0 \<le> d mod k" and hi: "d mod k < k" using assms by simp_all
  show ?thesis
  proof
    assume "d div k < n"
    then have "d div k + 1 \<le> n" by simp
    then have "(d div k + 1) * k \<le> n * k" using assms by (simp only: mult_right_mono less_imp_le)
    moreover have "(d div k + 1) * k = k * (d div k) + k" by (simp add: algebra_simps)
    ultimately show "d < n * k" using eq hi by linarith
  next
    assume a: "d < n * k"
    show "d div k < n"
    proof (rule ccontr)
      assume "\<not> d div k < n"
      then have "n \<le> d div k" by simp
      then have "n * k \<le> (d div k) * k" using assms by (simp only: mult_right_mono less_imp_le)
      moreover have "(d div k) * k = k * (d div k)" by simp
      ultimately show False using eq lo a by linarith
    qed
  qed
qed









section \<open>The two passes in closed form\<close>

lemma groupFold_current:
  "fst (groupFold (collect parse i seen items) (cs @ [c], Some (length cs)))
     = cs @ [c\<lparr>followingCommits := followingCommits c @ filter isCommit (gap seen items)\<rparr>]
          @ turnsFrom parse i seen items"
proof (induction items arbitrary: i seen cs c)
  case Nil
  show ?case by (simp add: gap_def)
next
  case (Cons item items)
  show ?case
  proof (cases "isCommit item")
    case True
    then have ns: "\<not> survives seen item" by (simp add: survives_def)
    show ?thesis
      using True ns Cons.IH [of "Suc i" seen cs "c\<lparr>followingCommits := followingCommits c @ [item]\<rparr>"]
      by (simp add: gap_def)
  next
    case nc: False
    show ?thesis
    proof (cases "survives seen item")
      case True
      then have a: "hasTextContent item" "contentKey item \<notin> seen" by (simp_all add: survives_def)
      show ?thesis
        using nc a True Cons.IH [of "Suc i" "insert (contentKey item) seen" "cs @ [c]" "mkComment parse item i"]
        by (simp add: gap_def mkComment_def)
    next
      case False
      then have "collect parse i seen (item # items) = collect parse (Suc i) seen items"
        using nc by (auto simp: survives_def)
      then show ?thesis
        using nc False Cons.IH [of "Suc i" seen cs c] by (simp add: gap_def)
    qed
  qed
qed

lemma groupFold_initial:
  "fst (groupFold (collect parse i seen items) ([], None)) = turnsFrom parse i seen items"
proof (induction items arbitrary: i seen)
  case Nil
  show ?case by simp
next
  case (Cons item items)
  show ?case
  proof (cases "isCommit item")
    case True
    then have ns: "\<not> survives seen item" by (simp add: survives_def)
    show ?thesis using True ns Cons.IH [of "Suc i" seen] by simp
  next
    case nc: False
    show ?thesis
    proof (cases "survives seen item")
      case True
      then have a: "hasTextContent item" "contentKey item \<notin> seen" by (simp_all add: survives_def)
      show ?thesis
        using nc a True
          groupFold_current [of parse "Suc i" "insert (contentKey item) seen" items "[]" "mkComment parse item i"]
        by (simp add: mkComment_def)
    next
      case False
      then have "collect parse i seen (item # items) = collect parse (Suc i) seen items"
        using nc by (auto simp: survives_def)
      then show ?thesis using False Cons.IH [of "Suc i" seen] by simp
    qed
  qed
qed

lemma groupCommits_turnsFrom:
  "groupCommits (orderedItems parse items) = turnsFrom parse 0 {} items"
  by (simp add: groupCommits_def orderedItems_def groupFold_initial)

lemma turnsFrom_index:
  "T \<in> set (turnsFrom parse (length pre) seen items) \<Longrightarrow>
     length pre \<le> index T \<and> index T < length (pre @ items)
     \<and> (pre @ items) ! index T = element T
     \<and> \<not> isCommit (element T) \<and> hasTextContent (element T)
     \<and> T\<lparr>followingCommits := []\<rparr> = mkComment parse (element T) (index T)"
proof (induction items arbitrary: pre seen)
  case Nil
  then show ?case by simp
next
  case (Cons item items)
  have step: "T \<in> set (turnsFrom parse (length (pre @ [item])) s items) \<Longrightarrow>
     length pre \<le> index T \<and> index T < length (pre @ item # items)
     \<and> (pre @ item # items) ! index T = element T
     \<and> \<not> isCommit (element T) \<and> hasTextContent (element T)
     \<and> T\<lparr>followingCommits := []\<rparr> = mkComment parse (element T) (index T)" for s
    using Cons.IH [of "pre @ [item]" s] by simp
  show ?case
  proof (cases "survives seen item")
    case True
    from Cons.prems True
    consider "T = (mkComment parse item (length pre))\<lparr>followingCommits :=
                    filter isCommit (gap (insert (contentKey item) seen) items)\<rparr>"
      | "T \<in> set (turnsFrom parse (length (pre @ [item])) (insert (contentKey item) seen) items)"
      by auto
    then show ?thesis
    proof cases
      case 1
      then show ?thesis using True by (simp add: mkComment_def survives_def)
    next
      case 2
      then show ?thesis by (rule step)
    qed
  next
    case False
    with Cons.prems have "T \<in> set (turnsFrom parse (length (pre @ [item])) seen items)" by simp
    then show ?thesis by (rule step)
  qed
qed

lemma turnsFrom_first:
  "hd (map index (turnsFrom parse i seen items) @ [i + length items]) = i + length (gap seen items)"
proof (induction items arbitrary: i seen)
  case Nil
  show ?case by (simp add: gap_def)
next
  case (Cons item items)
  show ?case
  proof (cases "survives seen item")
    case True
    then show ?thesis by (simp add: gap_def mkComment_def)
  next
    case False
    then show ?thesis using Cons.IH [of "Suc i" seen] by (simp add: gap_def)
  qed
qed

lemma turnsFrom_sorted:
  "sorted_wrt (<) (map index (turnsFrom parse (length (pre :: timeline_item list)) seen items))"
proof (induction items arbitrary: pre seen)
  case Nil
  show ?case by simp
next
  case (Cons item items)
  have later: "T \<in> set (turnsFrom parse (length (pre @ [item])) s items) \<Longrightarrow> length pre < index T" for T s
    using turnsFrom_index [of T parse "pre @ [item]" s items] by simp
  show ?case
    using Cons.IH [of "pre @ [item]"] later
    by (auto simp: mkComment_def)
qed

lemma commitsBetween_take_drop:
  assumes "b \<le> length items"
  shows "commitsBetween items a b = filter isCommit (take (b - Suc a) (drop (Suc a) items))"
proof -
  have "map ((!) items) [Suc a ..< b] = take (b - Suc a) (drop (Suc a) items)"
    using assms by (intro map_upt_eqI) auto
  then have "filter isCommit (take (b - Suc a) (drop (Suc a) items))
               = filter isCommit (map ((!) items) [Suc a ..< b])" by simp
  also have "\<dots> = commitsBetween items a b"
    by (simp add: commitsBetween_def filter_map comp_def)
  finally show ?thesis by simp
qed

lemma zip_successors:
  "zip (a # xs) (xs @ [e]) = (a, hd (xs @ [e])) # zip xs (tl xs @ [e])"
  by (cases xs) simp_all

lemma turnsFrom_commits:
  "map followingCommits (turnsFrom parse (length pre) seen items)
     = map (\<lambda>(a, b). commitsBetween (pre @ items) a b)
           (zip (map index (turnsFrom parse (length pre) seen items))
                (tl (map index (turnsFrom parse (length pre) seen items)) @ [length (pre @ items)]))"
proof (induction items arbitrary: pre seen)
  case Nil
  show ?case by simp
next
  case (Cons item items)
  have IH: "map followingCommits (turnsFrom parse (Suc (length pre)) s items)
     = map (\<lambda>(a, b). commitsBetween (pre @ item # items) a b)
           (zip (map index (turnsFrom parse (Suc (length pre)) s items))
                (tl (map index (turnsFrom parse (Suc (length pre)) s items)) @ [Suc (length pre + length items)]))" for s
    using Cons.IH [of "pre @ [item]" s] by simp
  show ?case
  proof (cases "survives seen item")
    case True
    let ?s = "insert (contentKey item) seen"
    let ?rest = "turnsFrom parse (Suc (length pre)) ?s items"
    have first: "hd (map index ?rest @ [Suc (length pre + length items)]) = Suc (length pre) + length (gap ?s items)"
      using turnsFrom_first [of parse "Suc (length pre)" ?s items] by simp
    have le: "Suc (length pre) + length (gap ?s items) \<le> length (pre @ item # items)"
      by (simp add: gap_def length_takeWhile_le)
    have "take (length (gap ?s items)) items = gap ?s items"
      by (simp add: gap_def takeWhile_eq_take [symmetric])
    then have "commitsBetween (pre @ item # items) (length pre) (Suc (length pre) + length (gap ?s items))
            = filter isCommit (gap ?s items)"
      using commitsBetween_take_drop [OF le] by simp
    then show ?thesis
      using True IH [of ?s] first
      by (simp add: zip_successors mkComment_def del: zip_Cons_Cons)
  next
    case False
    then show ?thesis using IH [of seen] by simp
  qed
qed

lemma nextAfter_Min:
  "nextAfter ts n a = Min (insert n {i \<in> index ` set ts. a < i})"
proof -
  have "fold min (filter (\<lambda>i. a < i) (map index ts)) n
          = Min (set (n # filter (\<lambda>i. a < i) (map index ts)))"
    by (simp only: Min.set_eq_fold)
  also have "set (n # filter (\<lambda>i. a < i) (map index ts)) = insert n {i \<in> index ` set ts. a < i}"
    by auto
  finally show ?thesis by (simp add: nextAfter_def)
qed

lemma successor_is_least:
  fixes xs :: "nat list"
  assumes "sorted_wrt (<) xs" "\<forall>x\<in>set xs. x < n" "(a, b) \<in> set (zip xs (tl xs @ [n]))"
  shows "Min (insert n {i \<in> set xs. a < i}) = b"
  using assms
proof (induction xs)
  case Nil
  then show ?case by simp
next
  case (Cons x xs)
  from Cons.prems(3) have mem: "(a, b) \<in> set (zip (x # xs) (xs @ [n]))" by simp
  have gt: "\<forall>y\<in>set xs. x < y" using Cons.prems(1) by simp
  from mem have "(a, b) = (x, hd (xs @ [n])) \<or> (a, b) \<in> set (zip xs (tl xs @ [n]))"
    by (simp only: zip_successors set_simps insert_iff)
  then show ?case
  proof
    assume "(a, b) = (x, hd (xs @ [n]))"
    then have a: "a = x" and b: "b = hd (xs @ [n])" by simp_all
    have "Min (insert n {i \<in> set (x # xs). x < i}) = hd (xs @ [n])"
    proof (rule Min_eqI)
      show "finite (insert n {i \<in> set (x # xs). x < i})" by simp
    next
      fix y assume "y \<in> insert n {i \<in> set (x # xs). x < i}"
      then have y: "y = n \<or> y \<in> set xs" by auto
      show "hd (xs @ [n]) \<le> y"
      proof (cases xs)
        case Nil
        then show ?thesis using y by simp
      next
        case (Cons z zs)
        then have "\<forall>w\<in>set zs. z < w" "z < n" using Cons.prems(1,2) \<open>xs = z # zs\<close> by simp_all
        then show ?thesis using y Cons by auto
      qed
    next
      show "hd (xs @ [n]) \<in> insert n {i \<in> set (x # xs). x < i}"
        using gt by (cases xs) simp_all
    qed
    then show ?thesis using a b by simp
  next
    assume rest: "(a, b) \<in> set (zip xs (tl xs @ [n]))"
    then have "a \<in> set xs" by (auto dest: set_zip_leftD)
    then have "x < a" using gt by simp
    then have "{i \<in> set (x # xs). a < i} = {i \<in> set xs. a < i}" by auto
    moreover have "Min (insert n {i \<in> set xs. a < i}) = b"
      using Cons.IH Cons.prems rest by simp
    ultimately show ?thesis by simp
  qed
qed

lemma turnsFrom_next:
  assumes "T \<in> set (turnsFrom parse 0 {} items)"
  shows "followingCommits T
           = commitsBetween items (index T) (nextAfter (turnsFrom parse 0 {} items) (length items) (index T))"
proof -
  let ?ts = "turnsFrom parse 0 {} items"
  let ?idxs = "map index ?ts"
  let ?succ = "zip ?idxs (tl ?idxs @ [length items])"
  from assms obtain k where k: "k < length ?ts" and T: "T = ?ts ! k"
    by (auto simp: in_set_conv_nth)
  have len: "length ?succ = length ?ts" by simp
  have fc: "map followingCommits ?ts = map (\<lambda>(a, b). commitsBetween items a b) ?succ"
    using turnsFrom_commits [of parse "[]" "{}" items] by simp
  have "followingCommits T = map followingCommits ?ts ! k" using k T by simp
  also have "\<dots> = (\<lambda>(a, b). commitsBetween items a b) (?succ ! k)"
    using k len by (simp only: fc nth_map)
  finally have eq: "followingCommits T = commitsBetween items (fst (?succ ! k)) (snd (?succ ! k))"
    by (simp add: case_prod_beta)
  have fst: "fst (?succ ! k) = index T" using k T by simp
  have mem: "(index T, snd (?succ ! k)) \<in> set ?succ"
    using k len fst by (metis nth_mem prod.collapse)
  have srt: "sorted_wrt (<) ?idxs" using turnsFrom_sorted [of parse "[]" "{}" items] by simp
  have bnd: "\<forall>x\<in>set ?idxs. x < length items"
    using turnsFrom_index [of _ parse "[]" "{}" items] by auto
  have "Min (insert (length items) {i \<in> set ?idxs. index T < i}) = snd (?succ ! k)"
    using srt bnd mem by (rule successor_is_least)
  then have "nextAfter ?ts (length items) (index T) = snd (?succ ! k)"
    by (simp add: nextAfter_Min)
  then show ?thesis using eq fst by simp
qed

lemma turnsFrom_concat:
  "concat (map followingCommits (turnsFrom parse i seen items))
     = filter isCommit (drop (length (gap seen items)) items)"
proof (induction items arbitrary: i seen)
  case Nil
  show ?case by simp
next
  case (Cons item items)
  show ?case
  proof (cases "survives seen item")
    case True
    let ?s = "insert (contentKey item) seen"
    have "filter isCommit (gap ?s items) @ filter isCommit (drop (length (gap ?s items)) items)
            = filter isCommit items"
      by (simp add: gap_def filter_append [symmetric] takeWhile_eq_take [symmetric] dropWhile_eq_drop [symmetric])
    then show ?thesis using True Cons.IH [of "Suc i" ?s]
      by (simp add: gap_def survives_def)
  next
    case False
    then show ?thesis using Cons.IH [of "Suc i" seen] by (simp add: gap_def)
  qed
qed

lemma turnsFrom_commentsOf:
  "map (\<lambda>T. T\<lparr>followingCommits := []\<rparr>) (turnsFrom parse i seen items)
     = commentsOf (collect parse i seen items)"
proof (induction items arbitrary: i seen)
  case Nil
  show ?case by simp
next
  case (Cons item items)
  show ?case
    using Cons.IH [of "Suc i" seen] Cons.IH [of "Suc i" "insert (contentKey item) seen"]
    by (auto simp: survives_def mkComment_def)
qed

lemma collect_commits:
  "commitsOf (collect parse i seen items)
     = filter (\<lambda>(e, j). isCommit e) (zip items [i ..< i + length items])"
proof (induction items arbitrary: i seen)
  case Nil
  show ?case by simp
next
  case (Cons item items)
  have upt: "[i ..< Suc (i + length items)] = i # [Suc i ..< Suc (i + length items)]"
    by (rule upt_conv_Cons) simp
  show ?case
    using Cons.IH [of "Suc i"] by (simp add: upt del: upt_Suc)
qed

lemma collect_sound:
  "x \<in> set (collect parse (length pre) seen items) \<Longrightarrow>
     length pre \<le> itemIndex x \<and> itemIndex x < length (pre @ items)
     \<and> (pre @ items) ! itemIndex x = itemElement x
     \<and> (case x of CommitItem e j \<Rightarrow> isCommit e
                 | CommentItem c \<Rightarrow> \<not> isCommit (element c) \<and> hasTextContent (element c))"
proof (induction items arbitrary: pre seen)
  case Nil
  then show ?case by simp
next
  case (Cons item items)
  have step: "x \<in> set (collect parse (Suc (length pre)) s items) \<Longrightarrow> ?case" for s
    using Cons.IH [of "pre @ [item]" s] by simp
  from Cons.prems consider
      "isCommit item" "x = CommitItem item (length pre)"
    | "\<not> isCommit item" "hasTextContent item" "x = CommentItem (mkComment parse item (length pre))"
    | s where "x \<in> set (collect parse (Suc (length pre)) s items)"
    by (auto split: if_splits)
  then show ?case
  proof cases
    case 1
    then show ?thesis by simp
  next
    case 2
    then show ?thesis by (simp add: mkComment_def)
  next
    case 3
    then show ?thesis by (rule step)
  qed
qed

lemma collect_sorted:
  "sorted_wrt (<) (map itemIndex (collect parse (length (pre :: timeline_item list)) seen items))"
proof (induction items arbitrary: pre seen)
  case Nil
  show ?case by simp
next
  case (Cons item items)
  have later: "x \<in> set (collect parse (Suc (length pre)) s items) \<Longrightarrow> length pre < itemIndex x" for x s
    using collect_sound [of x parse "pre @ [item]" s items] by simp
  show ?case
    using Cons.IH [of "pre @ [item]"] later
    by (auto simp: mkComment_def)
qed

lemma collect_count:
  "length (commentsOf (collect parse i seen items)) = card (contentKey ` set (candidates items) - seen)"
proof (induction items arbitrary: i seen)
  case Nil
  show ?case by (simp add: candidates_def)
next
  case (Cons item items)
  show ?case
  proof (cases "isCommit item")
    case True
    then show ?thesis using Cons.IH by (simp add: candidates_def)
  next
    case nc: False
    show ?thesis
    proof (cases "hasTextContent item")
      case False
      then show ?thesis using nc Cons.IH by (simp add: candidates_def)
    next
      case ht: True
      have cand: "candidates (item # items) = item # candidates items"
        using nc ht by (simp add: candidates_def)
      show ?thesis
      proof (cases "contentKey item \<in> seen")
        case True
        have "contentKey ` set (candidates (item # items)) - seen = contentKey ` set (candidates items) - seen"
          using True cand by auto
        then show ?thesis using nc ht True Cons.IH by simp
      next
        case False
        let ?K = "contentKey ` set (candidates items)"
        have "contentKey ` set (candidates (item # items)) - seen = insert (contentKey item) (?K - insert (contentKey item) seen)"
          using False cand by auto
        moreover have "card (insert (contentKey item) (?K - insert (contentKey item) seen))
                         = Suc (card (?K - insert (contentKey item) seen))"
          by (rule card_insert_disjoint) simp_all
        ultimately have "card (contentKey ` set (candidates (item # items)) - seen) = Suc (card (?K - insert (contentKey item) seen))"
          by simp
        then show ?thesis using nc ht False Cons.IH by simp
      qed
    qed
  qed
qed

lemma collect_ignores_markup:
  "map itemIndex (collect parse i seen (map (\<lambda>item. item\<lparr>commentBodyHTML := h item\<rparr>) items))
     = map itemIndex (collect parse i seen items)"
proof (induction items arbitrary: i seen)
  case Nil
  show ?case by simp
next
  case (Cons item items)
  have same: "isCommit (item\<lparr>commentBodyHTML := h item\<rparr>) = isCommit item"
    "hasTextContent (item\<lparr>commentBodyHTML := h item\<rparr>) = hasTextContent item"
    "contentKey (item\<lparr>commentBodyHTML := h item\<rparr>) = contentKey item"
    by (simp_all add: isCommit_def hasTextContent_def contentKey_def author_def authorEl_def
          timeText_def bodyText_def cong: option.case_cong)
  show ?case using Cons.IH by (simp add: same mkComment_def)
qed

lemma all_commits_no_comments:
  "\<forall>item\<in>set items. isCommit item \<Longrightarrow> commentsOf (collect parse i seen items) = []"
  by (induction items arbitrary: i) simp_all


section \<open>The sort\<close>

text \<open>
  With no invalid date the comparator is the difference of two time values, and the
  insertion sort is the library's stable sort on the negated time: the result is in
  descending order of time, and comments with the same time keep their page order.
\<close>

lemma set_insertSorted: "set (insertSorted x ys) = insert x (set ys)"
  by (induction ys) auto

lemma set_sortComments: "set (sortComments cs) = set cs"
  by (induction cs) (simp_all add: sortComments_def set_insertSorted)

lemma length_insertSorted: "length (insertSorted x ys) = Suc (length ys)"
  by (induction ys) simp_all

lemma length_sortComments: "length (sortComments cs) = length cs"
  by (induction cs) (simp_all add: sortComments_def length_insertSorted)

lemma length_sortedComments:
  "length (sortedComments parse items) = length (commentsOf (orderedItems parse items))"
proof -
  have "length (turnsFrom parse 0 {} items) = length (commentsOf (collect parse 0 {} items))"
    using arg_cong [OF turnsFrom_commentsOf [of parse 0 "{}" items], of length] by simp
  then show ?thesis
    by (simp add: sortedComments_def length_sortComments groupCommits_turnsFrom)
       (simp add: orderedItems_def)
qed

lemma sortCompare_valid:
  "validDate a \<Longrightarrow> validDate b \<Longrightarrow> sortCompare a b = timeOf b - timeOf a"
  by (cases "date a"; cases "date b") (simp_all add: sortCompare_def timeOf_def validDate_def)

lemma insertSorted_insort_key:
  "validDate x \<Longrightarrow> \<forall>y\<in>set ys. validDate y \<Longrightarrow>
     insertSorted x ys = insort_key (\<lambda>c. - timeOf c) x ys"
  by (induction ys) (simp_all add: sortCompare_valid)

lemma sortComments_sort_key:
  "\<forall>c\<in>set cs. validDate c \<Longrightarrow> sortComments cs = sort_key (\<lambda>c. - timeOf c) cs"
proof (induction cs)
  case Nil
  show ?case by (simp add: sortComments_def)
next
  case (Cons c cs)
  then have "sortComments cs = sort_key (\<lambda>c. - timeOf c) cs" by simp
  moreover have "sortComments (c # cs) = insertSorted c (sortComments cs)"
    by (simp add: sortComments_def)
  ultimately show ?case
    using Cons.prems by (simp add: insertSorted_insort_key)
qed

lemma sortComments_valid_dates:
  assumes "\<forall>c\<in>set cs. validDate c"
  shows "sorted (map (\<lambda>c. - timeOf c) (sortComments cs))"
    and "filter (\<lambda>c. timeOf c = t) (sortComments cs) = filter (\<lambda>c. timeOf c = t) cs"
proof -
  have eq: "sortComments cs = sort_key (\<lambda>c. - timeOf c) cs"
    using assms by (rule sortComments_sort_key)
  show "sorted (map (\<lambda>c. - timeOf c) (sortComments cs))"
    by (simp add: eq)
  have "filter (\<lambda>c. - timeOf c = - t) (sort_key (\<lambda>c. - timeOf c) cs) = filter (\<lambda>c. - timeOf c = - t) cs"
    by (rule sort_key_stable)
  then show "filter (\<lambda>c. timeOf c = t) (sortComments cs) = filter (\<lambda>c. timeOf c = t) cs"
    by (simp add: eq)
qed


text \<open>
  The same for the whole pipeline, on a page where every timestamp that is present parses.
\<close>

lemma sortedComments_valid_dates:
  assumes "\<forall>item\<in>set items. timeEl item \<noteq> None \<longrightarrow> parse (timeText item) \<noteq> None"
  shows "sorted (map (\<lambda>c. - timeOf c) (sortedComments parse items))"
    and "filter (\<lambda>c. timeOf c = t) (sortedComments parse items)
           = filter (\<lambda>c. timeOf c = t) (groupCommits (orderedItems parse items))"
proof -
  have v: "\<forall>T\<in>set (groupCommits (orderedItems parse items)). validDate T"
  proof
    fix T assume "T \<in> set (groupCommits (orderedItems parse items))"
    then have T: "T \<in> set (turnsFrom parse 0 {} items)" by (simp add: groupCommits_turnsFrom)
    have i: "index T < length items" "items ! index T = element T"
      and m: "T\<lparr>followingCommits := []\<rparr> = mkComment parse (element T) (index T)"
      using turnsFrom_index [of T parse "[]" "{}" items] T by simp_all
    have "element T \<in> set items" using i by (metis nth_mem)
    then have p: "timeEl (element T) \<noteq> None \<longrightarrow> parse (timeText (element T)) \<noteq> None"
      using assms by blast
    have "date T = date (T\<lparr>followingCommits := []\<rparr>)" by simp
    also have "\<dots> = date (mkComment parse (element T) (index T))" by (simp only: m)
    finally show "validDate T"
      using p by (auto simp: validDate_def mkComment_def newDate_def split: option.splits)
  qed
  show "sorted (map (\<lambda>c. - timeOf c) (sortedComments parse items))"
    unfolding sortedComments_def using v by (rule sortComments_valid_dates(1))
  show "filter (\<lambda>c. timeOf c = t) (sortedComments parse items)
           = filter (\<lambda>c. timeOf c = t) (groupCommits (orderedItems parse items))"
    unfolding sortedComments_def using v by (rule sortComments_valid_dates(2))
qed


section \<open>The toggle keeps the page consistent\<close>

lemma created_consistent:
  "containerEl st = None \<Longrightarrow> discussionEl st = Some d
     \<Longrightarrow> consistent (simplifyPR parse shortDate clock True st)"
  by (simp add: simplifyPR_def createSimplifiedView_def consistent_def Let_def)

lemma toggle_consistent:
  assumes "consistent s"
  shows "consistent (click s)" and "fst (toggleView s) = None"
    and "isSimplified (click s) = (\<not> isSimplified s)"
  using assms by (auto simp: consistent_def click_def toggleView_def Let_def)

lemma switch_consistent: "consistent s \<Longrightarrow> consistent (switchTab i s)"
  by (cases "isSimplified s") (auto simp: consistent_def switchTab_def)

lemma reachable_consistent: "reachable s \<Longrightarrow> consistent s"
proof (induction rule: reachable.induct)
  case (created st d parse shortDate clock)
  then show ?case by (simp add: created_consistent)
next
  case (toggled st)
  then show ?case using toggle_consistent(1) [of st] by (simp add: click_def)
next
  case (switched st i)
  from switched.IH show ?case by (rule switch_consistent)
next
  case (rerun st parse shortDate clock onPullPage)
  from rerun.IH have "containerEl st \<noteq> None" by (auto simp: consistent_def)
  then have "simplifyPR parse shortDate clock onPullPage st = st" by (simp add: simplifyPR_def)
  with rerun.IH show ?case by simp
qed

lemma toggle_twice:
  assumes "consistent s"
  shows "toggleView (click s) = (None, s)"
proof -
  from assms obtain d c where dc: "discussionEl s = Some d" "containerEl s = Some c"
    and v: "if isSimplified s
            then tabsDisplay c = [] \<and> discussionDisplay d = js ''none''
                 \<and> toggleBtn c = js ''Show Original View''
            else tabsDisplay c = js ''none'' \<and> discussionDisplay d = []
                 \<and> toggleBtn c = js ''Show Simplified View''"
    by (auto simp: consistent_def)
  show ?thesis
  proof (cases "isSimplified s")
    case True
    then show ?thesis using dc v
      by (simp add: click_def toggleView_def Let_def)
  next
    case False
    then show ?thesis using dc v
      by (simp add: click_def toggleView_def Let_def)
  qed
qed

lemma untouched_click: "untouched s (click s)"
  by (cases "containerEl s"; cases "discussionEl s")
     (simp_all add: untouched_def click_def toggleView_def Let_def)

lemma untouched_trans: "untouched a b \<Longrightarrow> untouched b c \<Longrightarrow> untouched a c"
  by (simp add: untouched_def)

lemma untouched_clicks: "untouched s ((click ^^ n) s)"
proof (induction n)
  case 0
  show ?case by (simp add: untouched_def)
next
  case (Suc n)
  have "untouched ((click ^^ n) s) (click ((click ^^ n) s))" by (rule untouched_click)
  with Suc show ?case by (simp add: untouched_trans)
qed

lemma even_clicks:
  assumes "consistent s"
  shows "(click ^^ (2 * n)) s = s"
proof (induction n)
  case 0
  show ?case by simp
next
  case (Suc n)
  have "click (click s) = s"
    using toggle_twice [OF assms] by (simp add: click_def [of "click s"])
  moreover have "(click ^^ (2 * Suc n)) s = (click ^^ (2 * n)) (click (click s))"
    by (simp add: funpow_swap1)
  ultimately show ?case using Suc by simp
qed


section \<open>Facts about the sample items\<close>

lemmas item_defs = commentNode_def emptyItem_def commitNode_def isCommit_def hasTextContent_def
  contentKey_def author_def authorEl_def timeText_def bodyText_def interpolate_def substring_def
  trim_def isWhiteSpace_def js_def robot_def

lemma commitNode_facts: "isCommit commitNode"
  by (simp add: item_defs)

lemma early_facts:
  "\<not> isCommit early" "hasTextContent early"
  "contentKey early = js ''al-2024-01-01T00:00:00Z-lgtm''"
  "date (mkComment isoTable early i) = Date 1704067200000"
  by (simp_all add: early_def item_defs mkComment_def newDate_def isoTable_def)

lemma late_facts:
  "\<not> isCommit late" "hasTextContent late"
  "contentKey late = js ''cy-2024-01-02T00:00:00Z-ok''"
  "date (mkComment isoTable late i) = Date 1704153600000"
  by (simp_all add: late_def item_defs mkComment_def newDate_def isoTable_def)

lemma unparsable_facts:
  "\<not> isCommit unparsable" "hasTextContent unparsable"
  "contentKey unparsable = js ''bo-N/A-hi''"
  "timeEl unparsable \<noteq> None" "timeText unparsable = js ''N/A''"
  "date (mkComment isoTable unparsable i) = InvalidDate"
  by (simp_all add: unparsable_def item_defs mkComment_def newDate_def isoTable_def)

lemma mkComment_fields:
  "index (mkComment parse item i) = i"
  "element (mkComment parse item i) = item"
  "followingCommits (mkComment parse item i) = []"
  by (simp_all add: mkComment_def)

lemma sample_keys_differ:
  "js ''cy-2024-01-02T00:00:00Z-ok'' \<noteq> js ''al-2024-01-01T00:00:00Z-lgtm''"
  "js ''bo-N/A-hi'' \<noteq> js ''al-2024-01-01T00:00:00Z-lgtm''"
  "js ''cy-2024-01-02T00:00:00Z-ok'' \<noteq> js ''bo-N/A-hi''"
  by (simp_all add: js_def)

lemma samplePage_items:
  "orderedItems isoTable samplePage
     = [CommitItem commitNode 0, CommentItem (mkComment isoTable early 1), CommitItem commitNode 2,
        CommitItem commitNode 3, CommentItem (mkComment isoTable late 4), CommitItem commitNode 6]"
  by (simp add: orderedItems_def samplePage_def early_facts late_facts commitNode_facts
        sample_keys_differ eval_nat_numeral)

lemma samplePage_grouped:
  "groupCommits (orderedItems isoTable samplePage)
     = [(mkComment isoTable early 1)\<lparr>followingCommits := [commitNode, commitNode]\<rparr>,
        (mkComment isoTable late 4)\<lparr>followingCommits := [commitNode]\<rparr>]"
  by (simp add: samplePage_items groupCommits_def mkComment_fields)

lemma samplePage_turns:
  "sortedComments isoTable samplePage
     = [(mkComment isoTable late 4)\<lparr>followingCommits := [commitNode]\<rparr>,
        (mkComment isoTable early 1)\<lparr>followingCommits := [commitNode, commitNode]\<rparr>]"
  by (simp add: sortedComments_def samplePage_grouped sortComments_def sortCompare_def
        early_facts late_facts)




lemma signedBy_facts:
  "\<not> isCommit (signedBy a)" "hasTextContent (signedBy a)"
  "timeText (signedBy a) = js ''2024-01-01T00:00:00Z''"
  "bodyText (signedBy a) = robot @ js '' agenthelper''"
  "author (signedBy a) = Some (trim (js a))"
  "isFromAgenthelper (signedBy a)"
  by (simp_all add: signedBy_def isFromAgenthelper_def endsWith_def startsWith_def
        commentNode_def emptyItem_def isCommit_def hasTextContent_def author_def authorEl_def
        timeText_def bodyText_def trim_def isWhiteSpace_def robot_def js_def [of "''2024-01-01T00:00:00Z''"]
        js_def [of "'' agenthelper''"] js_def [of "''agenthelper''"])

lemma signedAnonymous_facts:
  "\<not> isCommit signedAnonymous" "hasTextContent signedAnonymous"
  "timeText signedAnonymous = js ''2024-01-01T00:00:00Z''"
  "bodyText signedAnonymous = robot @ js '' agenthelper''"
  "author signedAnonymous = None"
  "isFromAgenthelper signedAnonymous"
  by (simp_all add: signedAnonymous_def signedBy_def isFromAgenthelper_def endsWith_def
        startsWith_def item_defs)

lemma sample_authors:
  "trim (js ''al'') = js ''al''" "trim (js ''cy'') = js ''cy''"
  "trim (js ''undefined'') = js ''undefined''" "js ''al'' \<noteq> js ''cy''"
  by (simp_all add: trim_def isWhiteSpace_def js_def)

lemma pushNote_facts:
  "isCommit pushNote" "hasTextContent pushNote" "contentKey pushNote = contentKey early"
  by (simp_all add: pushNote_def early_def item_defs)

lemma shortDateUTC_sample: "shortDateUTC 1600000000000 = js ''Sep 13''"
  by code_simp


section \<open>Unparsable timestamps\<close>

text \<open>
  C1.  A run of the pipeline on a page whose first comment carries the unparsable
  timestamp \<open>N/A\<close> and whose second comment carries a valid one: the first comment gets
  an invalid date, not the epoch; it stays in front of the comment with the valid date;
  and its relative time renders as \<open>Invalid Date\<close>.
\<close>

theorem unparsable_timestamp_run:
  "map date (sortedComments isoTable [unparsable, early]) = [InvalidDate, Date 1704067200000]
   \<and> map index (sortedComments isoTable [unparsable, early]) = [0, 1]
   \<and> formatTimeAgo shortDateUTC (fixedClock 0) (Some (date (mkComment isoTable unparsable 0)))
        = js ''Invalid Date''"
proof -
  have "orderedItems isoTable [unparsable, early]
          = [CommentItem (mkComment isoTable unparsable 0), CommentItem (mkComment isoTable early 1)]"
    by (simp add: orderedItems_def unparsable_facts early_facts sample_keys_differ [symmetric])
  then have "sortedComments isoTable [unparsable, early]
          = [mkComment isoTable unparsable 0, mkComment isoTable early 1]"
    by (simp add: sortedComments_def groupCommits_def sortComments_def sortCompare_def
          unparsable_facts early_facts)
  then show ?thesis
    by (simp add: unparsable_facts early_facts mkComment_fields formatTimeAgo_def)
qed


section \<open>Commits are attached to the comment they follow\<close>

text \<open>
  C2.  Every turn of the built list sits at a page position of its own, and the commits
  attached to it are exactly the commit nodes at the page positions strictly after that
  position and strictly before the position of the next surviving comment (or the end of
  the page), in page order.  All attached commits together are the commits after the
  first surviving comment: a commit before it is attached to no turn.
\<close>

theorem attached_commits_follow_their_comment:
  "(\<forall>T\<in>set (sortedComments parse items).
      index T < length items \<and> items ! index T = element T
      \<and> followingCommits T
          = commitsBetween items (index T)
              (nextAfter (sortedComments parse items) (length items) (index T)))
   \<and> concat (map followingCommits (groupCommits (orderedItems parse items)))
       = filter isCommit
           (drop (hd (map index (groupCommits (orderedItems parse items)) @ [length items])) items)"
proof -
  let ?ts = "turnsFrom parse 0 {} items"
  have g: "groupCommits (orderedItems parse items) = ?ts" by (rule groupCommits_turnsFrom)
  have s: "set (sortedComments parse items) = set ?ts"
    by (simp add: sortedComments_def set_sortComments g)
  have nx: "nextAfter (sortedComments parse items) n a = nextAfter ?ts n a" for n a
    by (simp add: nextAfter_Min s)
  have one: "index T < length items \<and> items ! index T = element T
      \<and> followingCommits T = commitsBetween items (index T) (nextAfter ?ts (length items) (index T))"
    if "T \<in> set ?ts" for T
    using turnsFrom_index [of T parse "[]" "{}" items] turnsFrom_next [OF that] that by simp
  have "concat (map followingCommits ?ts) = filter isCommit (drop (length (gap {} items)) items)"
    by (rule turnsFrom_concat)
  moreover have "hd (map index ?ts @ [length items]) = length (gap {} items)"
    using turnsFrom_first [of parse 0 "{}" items] by simp
  ultimately have two: "concat (map followingCommits ?ts)
       = filter isCommit (drop (hd (map index ?ts @ [length items])) items)" by simp
  show ?thesis using one two by (simp add: g s nx)
qed

theorem attached_commits_witness:
  "(mkComment isoTable early 1)\<lparr>followingCommits := [commitNode, commitNode]\<rparr>
      \<in> set (sortedComments isoTable samplePage)
   \<and> commitsBetween samplePage 1 (nextAfter (sortedComments isoTable samplePage) 7 1)
        = [commitNode, commitNode]
   \<and> nextAfter (sortedComments isoTable samplePage) 7 1 = 4"
proof -
  let ?T = "(mkComment isoTable early 1)\<lparr>followingCommits := [commitNode, commitNode]\<rparr>"
  have m: "?T \<in> set (sortedComments isoTable samplePage)" by (simp add: samplePage_turns)
  have i: "index ?T = 1" "followingCommits ?T = [commitNode, commitNode]"
    by (simp_all add: mkComment_def)
  have n: "nextAfter (sortedComments isoTable samplePage) 7 1 = 4"
    by (simp add: samplePage_turns nextAfter_def mkComment_def)
  have l: "length samplePage = 7" by (simp add: samplePage_def)
  from attached_commits_follow_their_comment [of isoTable samplePage, THEN conjunct1, rule_format, OF m]
  have "followingCommits ?T = commitsBetween samplePage (index ?T)
          (nextAfter (sortedComments isoTable samplePage) (length samplePage) (index ?T))" by simp
  then show ?thesis using m n i l by simp
qed


section \<open>Deduplication counts content keys\<close>

text \<open>
  Two comments by the same author: one with the time text \<open>10:00-08:00\<close> and the body
  \<open>ok\<close>, one with the time text \<open>10:00\<close> and the body \<open>08:00-ok\<close>.  The triples
  differ, the hyphen-joined keys are the same string, and one turn survives.
\<close>

theorem triple_fingerprint_counterexample:
  "length (sortedComments isoTable [zoned, unzoned]) = 1
   \<and> card (fingerprint ` set (candidates [zoned, unzoned])) = 2"
proof -
  have k: "contentKey zoned = contentKey unzoned"
    "\<not> isCommit zoned" "hasTextContent zoned" "\<not> isCommit unzoned" "hasTextContent unzoned"
    by (simp_all add: zoned_def unzoned_def item_defs)
  have "commentsOf (orderedItems isoTable [zoned, unzoned]) = [mkComment isoTable zoned 0]"
    by (simp add: orderedItems_def k)
  then have one: "length (sortedComments isoTable [zoned, unzoned]) = 1"
    by (simp add: length_sortedComments)
  have "candidates [zoned, unzoned] = [zoned, unzoned]" by (simp add: candidates_def k)
  moreover have "fingerprint zoned \<noteq> fingerprint unzoned"
    by (simp add: fingerprint_def zoned_def unzoned_def item_defs)
  ultimately show ?thesis using one by simp
qed

text \<open>
  C3, as the code has it.  The number of turns is the number of distinct content keys among the
  comment items of the page, where the content key is the string made of the author text
  (\<open>undefined\<close> when absent), the raw timestamp text and the first 100 code units of the
  trimmed body, joined by hyphens; it is at most the number of comment items.  Every
  commit item of the page is emitted, with its page position; the entries that are
  emitted are in page order, and each is the page item at its position.
\<close>

theorem dedup_counts_content_keys:
  "length (sortedComments parse items) = card (contentKey ` set (candidates items))
   \<and> length (sortedComments parse items) \<le> length (candidates items)
   \<and> commitsOf (orderedItems parse items)
        = filter (\<lambda>(e, j). isCommit e) (zip items [0 ..< length items])
   \<and> sorted_wrt (<) (map itemIndex (orderedItems parse items))
   \<and> (\<forall>x\<in>set (orderedItems parse items).
         itemIndex x < length items \<and> items ! itemIndex x = itemElement x)"
proof -
  have n: "length (sortedComments parse items) = card (contentKey ` set (candidates items))"
    using collect_count [of parse 0 "{}" items]
    by (simp add: length_sortedComments orderedItems_def)
  have "card (contentKey ` set (candidates items)) \<le> card (set (candidates items))"
    by (rule card_image_le) simp
  also have "\<dots> \<le> length (candidates items)" by (rule card_length)
  finally have le: "length (sortedComments parse items) \<le> length (candidates items)"
    using n by simp
  have c: "commitsOf (orderedItems parse items)
        = filter (\<lambda>(e, j). isCommit e) (zip items [0 ..< length items])"
    using collect_commits [of parse 0 "{}" items] by (simp add: orderedItems_def)
  have s: "sorted_wrt (<) (map itemIndex (orderedItems parse items))"
    using collect_sorted [of parse "[]" "{}" items] by (simp add: orderedItems_def)
  have e: "\<forall>x\<in>set (orderedItems parse items).
         itemIndex x < length items \<and> items ! itemIndex x = itemElement x"
    using collect_sound [of _ parse "[]" "{}" items] by (auto simp: orderedItems_def)
  from n le c s e show ?thesis by blast
qed

theorem dedup_witness:
  "orderedItems isoTable samplePage \<noteq> []
   \<and> length (sortedComments isoTable samplePage) = 2
   \<and> card (contentKey ` set (candidates samplePage)) = 2
   \<and> length (candidates samplePage) = 3
   \<and> map itemIndex (orderedItems isoTable samplePage) = [0, 1, 2, 3, 4, 6]"
proof -
  have a: "map itemIndex (orderedItems isoTable samplePage) = [0, 1, 2, 3, 4, 6]"
    by (simp add: samplePage_items mkComment_fields)
  have b: "length (candidates samplePage) = 3"
    by (simp add: candidates_def samplePage_def early_facts late_facts commitNode_facts)
  have c: "length (sortedComments isoTable samplePage) = 2" by (simp add: samplePage_turns)
  from a have d: "orderedItems isoTable samplePage \<noteq> []" by auto
  show ?thesis
    using dedup_counts_content_keys [of isoTable samplePage] a b c d by simp
qed


section \<open>Sorting in the presence of an invalid date\<close>

text \<open>
  C4.  A run of the pipeline on three comments in page order, the middle one with the
  unparsable timestamp \<open>N/A\<close>: every comparison with the invalid date answers \<open>NaN\<close>,
  the list is left in page order, and the older of the two dated comments stays in front
  of the newer one.
\<close>

theorem invalid_date_blocks_sorting:
  "map (\<lambda>T. (index T, date T)) (sortedComments isoTable [early, unparsable, late])
     = [(0, Date 1704067200000), (1, InvalidDate), (2, Date 1704153600000)]"
proof -
  have "orderedItems isoTable [early, unparsable, late]
          = [CommentItem (mkComment isoTable early 0), CommentItem (mkComment isoTable unparsable 1),
             CommentItem (mkComment isoTable late 2)]"
    by (simp add: orderedItems_def unparsable_facts early_facts late_facts sample_keys_differ
          eval_nat_numeral)
  then have "sortedComments isoTable [early, unparsable, late]
          = [mkComment isoTable early 0, mkComment isoTable unparsable 1, mkComment isoTable late 2]"
    by (simp add: sortedComments_def groupCommits_def sortComments_def sortCompare_def
          unparsable_facts early_facts late_facts)
  then show ?thesis
    by (simp add: unparsable_facts early_facts late_facts mkComment_fields)
qed


section \<open>Detection of automated comments\<close>





section \<open>The humanization rule\<close>

text \<open>
  C6.  For a valid date \<open>t\<close> other than the epoch and a clock reading \<open>now \<ge> t\<close>,
  \<open>formatTimeAgo\<close> returns \<open>just now\<close> under one minute, the whole minutes followed by
  \<open>m ago\<close> under sixty minutes, the whole hours followed by \<open>h ago\<close> under twenty-four
  hours, the whole days followed by \<open>d ago\<close> under seven days, and the short date of
  \<open>t\<close> otherwise; at the epoch it returns the empty string whatever the clock reads.
\<close>

theorem formatTimeAgo_rule:
  "(t \<noteq> 0 \<and> t \<le> now \<longrightarrow>
      formatTimeAgo shortDate now (Some (Date t)) =
        (if now - t < 60000 then js ''just now''
         else if now - t < 3600000 then numberToString ((now - t) div 60000) @ js ''m ago''
         else if now - t < 86400000 then numberToString ((now - t) div 3600000) @ js ''h ago''
         else if now - t < 604800000 then numberToString ((now - t) div 86400000) @ js ''d ago''
         else shortDate t))
   \<and> formatTimeAgo shortDate now (Some (Date 0)) = []"
  by (simp add: formatTimeAgo_def Let_def div_lt_iff)

theorem formatTimeAgo_rule_witness:
  "(1699999700000 :: int) \<noteq> 0 \<and> (1699999700000 :: int) \<le> 1700000000000
   \<and> formatTimeAgo shortDateUTC 1700000000000 (Some (Date 1699999700000)) = js ''5m ago''
   \<and> formatTimeAgo shortDateUTC 1700000000000 (Some (Date 1600000000000)) = js ''Sep 13''
   \<and> formatTimeAgo shortDateUTC 1700000000000 (Some (Date 0)) = []"
  using formatTimeAgo_rule [of 1699999700000 1700000000000 shortDateUTC]
        formatTimeAgo_rule [of 1600000000000 1700000000000 shortDateUTC]
  by (simp add: shortDateUTC_sample numberToString_def digits.simps js_def)


section \<open>The view toggle\<close>

text \<open>
  C7.  In every state reached after a reconstruction a click on the toggle succeeds, and a
  second click gives back the whole state of the page: the timeline, both display
  attributes, the label of the button, and the active flags of the tabs and panels.  From
  the simplified view the first click shows the original content and hides the tabs.
  However many clicks are made, the timeline, the tabs and the panels stay as they were,
  and an even number of clicks gives back the state.
\<close>

theorem toggle_round_trip:
  assumes "reachable s"
  shows "fst (toggleView s) = None
     \<and> toggleView (click s) = (None, s)
     \<and> (isSimplified s \<longrightarrow>
           \<not> isSimplified (click s)
           \<and> map_option discussionDisplay (discussionEl (click s)) = Some []
           \<and> map_option tabsDisplay (containerEl (click s)) = Some (js ''none''))
     \<and> untouched s ((click ^^ n) s)
     \<and> (click ^^ (2 * n)) s = s"
proof -
  have c: "consistent s" using assms by (rule reachable_consistent)
  have first: "isSimplified s \<longrightarrow>
           \<not> isSimplified (click s)
           \<and> map_option discussionDisplay (discussionEl (click s)) = Some []
           \<and> map_option tabsDisplay (containerEl (click s)) = Some (js ''none'')"
    using c by (auto simp: consistent_def click_def toggleView_def Let_def)
  show ?thesis
    using toggle_consistent(2) [OF c] toggle_twice [OF c] first untouched_clicks [of s n]
      even_clicks [OF c, of n]
    by simp
qed

theorem toggle_round_trip_witness:
  "reachable (simplifyPR isoTable shortDateUTC fixedClock True (freshPage [early]))
   \<and> isSimplified (simplifyPR isoTable shortDateUTC fixedClock True (freshPage [early]))
   \<and> toggleView (click (simplifyPR isoTable shortDateUTC fixedClock True (freshPage [early])))
        = (None, simplifyPR isoTable shortDateUTC fixedClock True (freshPage [early]))
   \<and> map_option discussionDisplay
        (discussionEl (click (simplifyPR isoTable shortDateUTC fixedClock True (freshPage [early]))))
        = Some []"
proof -
  let ?s = "simplifyPR isoTable shortDateUTC fixedClock True (freshPage [early])"
  have r: "reachable ?s"
    by (rule reachable.created [where d = "\<lparr> timeline = [early], discussionDisplay = [], prSimplifierHidden = None \<rparr>"])
       (simp_all add: freshPage_def)
  have i: "isSimplified ?s"
    by (simp add: simplifyPR_def createSimplifiedView_def freshPage_def Let_def)
  show ?thesis using toggle_round_trip [OF r, of 1] r i by simp
qed


section \<open>A page of commits only\<close>

text \<open>
  C8.  When every item of the timeline is a commit-event, the list of turns is empty, the
  tab strip has no button, and the content area holds the single placeholder node with
  the text \<open>No comments yet\<close>.
\<close>

theorem only_commits_placeholder:
  assumes "\<forall>item\<in>set (timeline d). isCommit item"
  shows "sortedComments parse (timeline d) = []
     \<and> map_option tabNav (containerEl (createSimplifiedView parse shortDate clock st d)) = Some []
     \<and> map_option tabContent (containerEl (createSimplifiedView parse shortDate clock st d))
          = Some [NoComments (js ''No comments yet'')]"
proof -
  have "length (sortedComments parse (timeline d)) = 0"
    using all_commits_no_comments [OF assms, of parse 0 "{}"]
    by (simp add: length_sortedComments orderedItems_def)
  then have e: "sortedComments parse (timeline d) = []" by simp
  show ?thesis by (simp add: e createSimplifiedView_def Let_def)
qed

theorem only_commits_placeholder_witness:
  "isCommit commitNode
   \<and> sortedComments isoTable [commitNode] = []
   \<and> map_option tabNav (containerEl (simplifyPR isoTable shortDateUTC fixedClock True (freshPage [commitNode])))
        = Some []
   \<and> map_option tabContent (containerEl (simplifyPR isoTable shortDateUTC fixedClock True (freshPage [commitNode])))
        = Some [NoComments (js ''No comments yet'')]"
proof -
  let ?d = "\<lparr> timeline = [commitNode], discussionDisplay = [], prSimplifierHidden = None \<rparr>"
  have h: "\<forall>item\<in>set (timeline ?d). isCommit item" by (simp add: commitNode_facts)
  have s: "simplifyPR isoTable shortDateUTC fixedClock True (freshPage [commitNode])
             = createSimplifiedView isoTable shortDateUTC fixedClock (freshPage [commitNode]) ?d"
    by (simp add: simplifyPR_def freshPage_def)
  show ?thesis
    using only_commits_placeholder [OF h, of isoTable shortDateUTC fixedClock "freshPage [commitNode]"]
    by (simp add: s commitNode_facts)
qed


section \<open>Commit classification comes first\<close>

text \<open>
  C9.  A timeline item that matches a commit marker is emitted as a commit entry at its
  page position, whatever body text it carries, and no comment entry and no turn has that
  position.
\<close>

theorem commit_takes_precedence:
  assumes "i < length items" "isCommit (items ! i)"
  shows "CommitItem (items ! i) i \<in> set (orderedItems parse items)
         \<and> (\<forall>c\<in>set (commentsOf (orderedItems parse items)). index c \<noteq> i)
         \<and> (\<forall>T\<in>set (sortedComments parse items). index T \<noteq> i)"
proof -
  have "((items ! i), i) \<in> set (filter (\<lambda>(e, j). isCommit e) (zip items [0 ..< length items]))"
    using assms by (auto simp: set_zip)
  then have "(items ! i, i) \<in> set (commitsOf (collect parse 0 {} items))"
    using collect_commits [of parse 0 "{}" items] by simp
  moreover have "(e, j) \<in> set (commitsOf xs) \<Longrightarrow> CommitItem e j \<in> set xs" for e j xs
    by (induction xs rule: commitsOf.induct) auto
  ultimately have a: "CommitItem (items ! i) i \<in> set (orderedItems parse items)"
    by (simp add: orderedItems_def)
  have b: "index T \<noteq> i" if "T \<in> set (turnsFrom parse 0 {} items)" for T
    using turnsFrom_index [of T parse "[]" "{}" items] that assms by auto
  have mem: "c \<in> set (commentsOf xs) \<Longrightarrow> CommentItem c \<in> set xs" for c xs
    by (induction xs rule: commentsOf.induct) auto
  have c: "index c \<noteq> i" if "c \<in> set (commentsOf (orderedItems parse items))" for c
    using collect_sound [of "CommentItem c" parse "[]" "{}" items] mem [OF that] assms
    by (auto simp: orderedItems_def)
  show ?thesis
    using a b c by (simp add: sortedComments_def set_sortComments groupCommits_turnsFrom)
qed

text \<open>
  On the page of a comment followed by two push events with the text and the key of that
  comment: both push events are commit-marked and carry body text, both are emitted as
  commit entries, the second as well as the first, and neither position is that of a turn.
\<close>

theorem commit_takes_precedence_witness:
  "(2::nat) < length pushPage
   \<and> isCommit (pushPage ! 2) \<and> hasTextContent (pushPage ! 2)
   \<and> contentKey (pushPage ! 2) = contentKey (pushPage ! 0)
   \<and> CommitItem pushNote 1 \<in> set (orderedItems isoTable pushPage)
   \<and> CommitItem pushNote 2 \<in> set (orderedItems isoTable pushPage)
   \<and> 1 \<notin> index ` set (sortedComments isoTable pushPage)
   \<and> 2 \<notin> index ` set (sortedComments isoTable pushPage)"
proof -
  have l: "(1::nat) < length pushPage" "(2::nat) < length pushPage" by (simp_all add: pushPage_def)
  have e: "pushPage ! 0 = early" "pushPage ! Suc 0 = pushNote" "pushPage ! 2 = pushNote"
    by (simp_all add: pushPage_def)
  have c: "isCommit (pushPage ! 1)" "isCommit (pushPage ! 2)"
    by (simp_all add: pushPage_def pushNote_facts)
  show ?thesis
    using commit_takes_precedence [OF l(1) c(1), of isoTable]
          commit_takes_precedence [OF l(2) c(2), of isoTable] l c
    by (auto simp: e pushNote_facts)
qed


section \<open>The deduplication key and the display override\<close>

text \<open>
  The same signed comment once with no author node and once by the user \<open>undefined\<close>:
  the author fields differ, the keys are the same string, and one turn survives.
\<close>

theorem raw_author_counterexample:
  "author signedAnonymous \<noteq> author (signedBy ''undefined'')
   \<and> timeText signedAnonymous = timeText (signedBy ''undefined'')
   \<and> bodyText signedAnonymous = bodyText (signedBy ''undefined'')
   \<and> isFromAgenthelper signedAnonymous \<and> isFromAgenthelper (signedBy ''undefined'')
   \<and> length (sortedComments isoTable [signedAnonymous, signedBy ''undefined'']) = 1"
proof -
  have k: "contentKey (signedBy ''undefined'') = contentKey signedAnonymous"
    by (simp add: contentKey_def signedBy_facts signedAnonymous_facts sample_authors interpolate_def)
  have "commentsOf (orderedItems isoTable [signedAnonymous, signedBy ''undefined''])
          = [mkComment isoTable signedAnonymous 0]"
    by (simp add: orderedItems_def k signedBy_facts signedAnonymous_facts)
  then have "length (sortedComments isoTable [signedAnonymous, signedBy ''undefined'']) = 1"
    by (simp add: length_sortedComments)
  then show ?thesis by (simp add: signedBy_facts signedAnonymous_facts)
qed

text \<open>
  C10, as the code has it.  The key of the deduplication is built from the author text of the page,
  read as \<open>undefined\<close> when no author node is found, and never from the displayed author.
  Two comment items with the same timestamp text and the same body whose author texts,
  so read, differ are both kept, and both are displayed as \<open>agenthelper\<close> when both are
  signed.  Changing the \<open>.comment-body\<close> markup of the items of a page, which switches the
  override on or off, leaves the positions of the emitted entries unchanged.
\<close>

theorem dedup_key_uses_raw_author:
  "(\<not> isCommit x \<and> hasTextContent x \<and> \<not> isCommit y \<and> hasTextContent y
      \<and> timeText x = timeText y \<and> bodyText x = bodyText y
      \<and> interpolate (author x) \<noteq> interpolate (author y)
    \<longrightarrow> length (sortedComments parse [x, y]) = 2
        \<and> index ` set (sortedComments parse [x, y]) = {0, 1}
        \<and> (isFromAgenthelper x \<and> isFromAgenthelper y
             \<longrightarrow> (\<forall>T\<in>set (sortedComments parse [x, y]). authorName T = js ''agenthelper'')))
   \<and> map itemIndex (orderedItems parse (map (\<lambda>item. item\<lparr>commentBodyHTML := h item\<rparr>) items))
       = map itemIndex (orderedItems parse items)"
proof -
  have kept: "length (sortedComments parse [x, y]) = 2
        \<and> index ` set (sortedComments parse [x, y]) = {0, 1}
        \<and> (isFromAgenthelper x \<and> isFromAgenthelper y
             \<longrightarrow> (\<forall>T\<in>set (sortedComments parse [x, y]). authorName T = js ''agenthelper''))"
    if c: "\<not> isCommit x" "hasTextContent x" "\<not> isCommit y" "hasTextContent y"
      and same: "timeText x = timeText y" "bodyText x = bodyText y"
      and diff: "interpolate (author x) \<noteq> interpolate (author y)"
  proof -
    have k: "contentKey y \<noteq> contentKey x"
      using same diff by (simp add: contentKey_def)
    have o: "orderedItems parse [x, y]
               = [CommentItem (mkComment parse x 0), CommentItem (mkComment parse y 1)]"
      using c k by (simp add: orderedItems_def)
    have g: "groupCommits (orderedItems parse [x, y]) = [mkComment parse x 0, mkComment parse y 1]"
      by (simp add: o groupCommits_def)
    have s: "set (sortedComments parse [x, y]) = {mkComment parse x 0, mkComment parse y 1}"
      by (simp add: sortedComments_def set_sortComments g)
    have l: "length (sortedComments parse [x, y]) = 2"
      by (simp add: length_sortedComments o)
    show ?thesis
      using l by (auto simp: s mkComment_def displayAuthor_def)
  qed
  have "map itemIndex (orderedItems parse (map (\<lambda>item. item\<lparr>commentBodyHTML := h item\<rparr>) items))
       = map itemIndex (orderedItems parse items)"
    by (simp add: orderedItems_def collect_ignores_markup)
  moreover have "\<not> isCommit x \<and> hasTextContent x \<and> \<not> isCommit y \<and> hasTextContent y
      \<and> timeText x = timeText y \<and> bodyText x = bodyText y
      \<and> interpolate (author x) \<noteq> interpolate (author y)
    \<longrightarrow> length (sortedComments parse [x, y]) = 2
        \<and> index ` set (sortedComments parse [x, y]) = {0, 1}
        \<and> (isFromAgenthelper x \<and> isFromAgenthelper y
             \<longrightarrow> (\<forall>T\<in>set (sortedComments parse [x, y]). authorName T = js ''agenthelper''))"
  proof (intro impI, elim conjE)
    assume "\<not> isCommit x" "hasTextContent x" "\<not> isCommit y" "hasTextContent y"
      "timeText x = timeText y" "bodyText x = bodyText y"
      "interpolate (author x) \<noteq> interpolate (author y)"
    then show "length (sortedComments parse [x, y]) = 2
        \<and> index ` set (sortedComments parse [x, y]) = {0, 1}
        \<and> (isFromAgenthelper x \<and> isFromAgenthelper y
             \<longrightarrow> (\<forall>T\<in>set (sortedComments parse [x, y]). authorName T = js ''agenthelper''))"
      by (rule kept)
  qed
  ultimately show ?thesis by (rule conjI [rotated])
qed

theorem dedup_key_witness:
  "\<not> isCommit (signedBy ''al'') \<and> hasTextContent (signedBy ''al'')
   \<and> interpolate (author (signedBy ''al'')) \<noteq> interpolate (author (signedBy ''cy''))
   \<and> isFromAgenthelper (signedBy ''al'') \<and> isFromAgenthelper (signedBy ''cy'')
   \<and> length (sortedComments isoTable [signedBy ''al'', signedBy ''cy'']) = 2
   \<and> index ` set (sortedComments isoTable [signedBy ''al'', signedBy ''cy'']) = {0, 1}
   \<and> authorName ` set (sortedComments isoTable [signedBy ''al'', signedBy ''cy'']) = {js ''agenthelper''}"
proof -
  have d: "interpolate (author (signedBy ''al'')) \<noteq> interpolate (author (signedBy ''cy''))"
    by (simp add: signedBy_facts sample_authors interpolate_def)
  have "length (sortedComments isoTable [signedBy ''al'', signedBy ''cy'']) = 2
        \<and> index ` set (sortedComments isoTable [signedBy ''al'', signedBy ''cy'']) = {0, 1}
        \<and> (\<forall>T\<in>set (sortedComments isoTable [signedBy ''al'', signedBy ''cy'']). authorName T = js ''agenthelper'')"
    using dedup_key_uses_raw_author [of "signedBy ''al''" "signedBy ''cy''" isoTable] d
    by (simp add: signedBy_facts)
  moreover from this have "set (sortedComments isoTable [signedBy ''al'', signedBy ''cy'']) \<noteq> {}"
    by auto
  ultimately show ?thesis using d by (auto simp: signedBy_facts)
qed

end
